theory Spec2Isabelle
  imports Main "HOL-Library.AList"
begin

section \<open>Python values, exceptions and the wrapper object\<close>

text \<open>
  A shallow embedding of \<^verbatim>\<open>src/cacheman/cachewrap.py\<close>. The contents of a cache are a
  Python dict, written as an association list, or \<open>None\<close>. An exception is a value:
  every operation that can raise returns a sum whose left side is the exception. The
  seven callbacks are fields of the wrapper, \<open>None\<close> when not configured; a callback
  is modelled by what it returns or raises for its arguments.
\<close>

type_synonym ('k, 'v) dict = "('k \<times> 'v) list"

datatype exn =
    AttributeError string
  | KeyError
  | TypeError string
  | IOError string

text \<open>What a saver may return: any Python value, of which only the truth value matters.\<close>

datatype ('k, 'v) pyval =
    PyNone
  | PyBool bool
  | PyInt int
  | PyStr string
  | PyDict "('k, 'v) dict"

fun truthy :: "('k, 'v) pyval \<Rightarrow> bool" where
  "truthy PyNone = False"
| "truthy (PyBool b) = b"
| "truthy (PyInt i) = (i \<noteq> 0)"
| "truthy (PyStr s) = (s \<noteq> [])"
| "truthy (PyDict d) = (d \<noteq> [])"

fun contents_value :: "('k, 'v) dict option \<Rightarrow> ('k, 'v) pyval" where
  "contents_value None = PyNone"
| "contents_value (Some d) = PyDict d"

text \<open>
  An element of \<open>self.dependents\<close>: a plain string, or an object with a \<open>name\<close>
  attribute (a wrapper-shaped value), which Python's set accepts only if it is hashable.
\<close>

datatype dependent =
    PlainName string
  | WrapperShaped bool string

fun hashable :: "dependent \<Rightarrow> bool" where
  "hashable (PlainName n) = True"
| "hashable (WrapperShaped h n) = h"

record ('k, 'v) CacheWrap =
  class_name :: string
  name :: string
  contents :: "('k, 'v) dict option"
  dependents :: "dependent list"
  loader :: "(string \<Rightarrow> exn + ('k, 'v) dict option) option"
  saver :: "(string \<Rightarrow> ('k, 'v) dict option \<Rightarrow> exn + ('k, 'v) pyval) option"
  builder :: "(string \<Rightarrow> exn + ('k, 'v) dict option) option"
  deleter :: "(string \<Rightarrow> exn + unit) option"
  pre_processor :: "(('k, 'v) dict option \<Rightarrow> exn + ('k, 'v) dict option) option"
  post_processor :: "(('k, 'v) dict option \<Rightarrow> exn + ('k, 'v) dict option) option"
  validator :: "(('k, 'v) dict \<Rightarrow> exn + bool) option"

section \<open>The mapping proxy\<close>

text \<open>
  Each item operation calls \<open>_check_contents_present\<close> and then delegates to the dict.
  The branch for absent contents after a passed check cannot be reached; it is there so
  that no operation reads an absent value.
\<close>

definition quoted :: "string \<Rightarrow> string" where
  "quoted s = CHR 0x27 # s @ [CHR 0x27]"

definition check_contents_present :: "('k, 'v) CacheWrap \<Rightarrow> exn + unit" where
  "check_contents_present self =
     (if contents self = None
      then Inl (AttributeError (''No cache contents defined for '' @ quoted (name self)))
      else Inr ())"

definition contains :: "('k, 'v) CacheWrap \<Rightarrow> 'k \<Rightarrow> bool" where
  "contains self k =
     (case contents self of None \<Rightarrow> False | Some d \<Rightarrow> map_of d k \<noteq> None)"

definition getitem :: "('k, 'v) CacheWrap \<Rightarrow> 'k \<Rightarrow> exn + 'v" where
  "getitem self k =
     (case check_contents_present self of
        Inl e \<Rightarrow> Inl e
      | Inr u \<Rightarrow>
          (case contents self of
             None \<Rightarrow> Inl (TypeError ''NoneType'')
           | Some d \<Rightarrow> (case map_of d k of None \<Rightarrow> Inl KeyError | Some v \<Rightarrow> Inr v)))"

definition setitem :: "('k, 'v) CacheWrap \<Rightarrow> 'k \<Rightarrow> 'v \<Rightarrow> exn + ('k, 'v) CacheWrap" where
  "setitem self k v =
     (case check_contents_present self of
        Inl e \<Rightarrow> Inl e
      | Inr u \<Rightarrow>
          (case contents self of
             None \<Rightarrow> Inl (TypeError ''NoneType'')
           | Some d \<Rightarrow> Inr (self\<lparr>contents := Some (AList.update k v d)\<rparr>)))"

definition delitem :: "('k, 'v) CacheWrap \<Rightarrow> 'k \<Rightarrow> exn + ('k, 'v) CacheWrap" where
  "delitem self k =
     (case check_contents_present self of
        Inl e \<Rightarrow> Inl e
      | Inr u \<Rightarrow>
          (case contents self of
             None \<Rightarrow> Inl (TypeError ''NoneType'')
           | Some d \<Rightarrow>
               (if map_of d k = None then Inl KeyError
                else Inr (self\<lparr>contents := Some (AList.delete k d)\<rparr>))))"

definition iter :: "('k, 'v) CacheWrap \<Rightarrow> exn + 'k list" where
  "iter self =
     (case check_contents_present self of
        Inl e \<Rightarrow> Inl e
      | Inr u \<Rightarrow>
          (case contents self of
             None \<Rightarrow> Inl (TypeError ''NoneType'')
           | Some d \<Rightarrow> Inr (map fst d)))"

definition len :: "('k, 'v) CacheWrap \<Rightarrow> exn + nat" where
  "len self =
     (case check_contents_present self of
        Inl e \<Rightarrow> Inl e
      | Inr u \<Rightarrow>
          (case contents self of
             None \<Rightarrow> Inl (TypeError ''NoneType'')
           | Some d \<Rightarrow> Inr (length d)))"

section \<open>Attribute fallback\<close>

text \<open>
  \<open>__getattr__\<close> runs when the wrapper itself lacks the attribute. It asks the contents'
  \<open>__getattribute__\<close> and then its \<open>__getattr__\<close>, keeping on after an AttributeError
  only. What the contents object answers belongs to the Python runtime, so the two getters
  are parameters: \<open>None\<close> when \<open>hasattr(self.contents, getter)\<close> is false.
\<close>

fun contents_class_name :: "('k, 'v) dict option \<Rightarrow> string" where
  "contents_class_name None = ''NoneType''"
| "contents_class_name (Some d) = ''dict''"

fun try_getters :: "(string \<Rightarrow> exn + 'a) option list \<Rightarrow> string \<Rightarrow> (exn + 'a) option" where
  "try_getters [] attr = None"
| "try_getters (None # gs) attr = try_getters gs attr"
| "try_getters (Some g # gs) attr =
     (case g attr of
        Inr x \<Rightarrow> Some (Inr x)
      | Inl (AttributeError m) \<Rightarrow> try_getters gs attr
      | Inl e \<Rightarrow> Some (Inl e))"

definition getattr ::
  "('k, 'v) CacheWrap \<Rightarrow> (string \<Rightarrow> exn + 'a) option \<Rightarrow> (string \<Rightarrow> exn + 'a) option \<Rightarrow>
   string \<Rightarrow> exn + 'a" where
  "getattr self getattribute_of_contents getattr_of_contents attr =
     (case try_getters [getattribute_of_contents, getattr_of_contents] attr of
        Some r \<Rightarrow> r
      | None \<Rightarrow>
          Inl (AttributeError
                (quoted (class_name self) @ '' and '' @ quoted (contents_class_name (contents self))
                 @ '' objects have no attribute '' @ quoted attr)))"

text \<open>Whether a text occurs inside another, to say that a message mentions a name.\<close>

fun starts_with :: "string \<Rightarrow> string \<Rightarrow> bool" where
  "starts_with s [] = True"
| "starts_with [] (c # p) = False"
| "starts_with (a # s) (c # p) = (a = c \<and> starts_with s p)"

fun mentions :: "string \<Rightarrow> string \<Rightarrow> bool" where
  "mentions [] p = (p = [])"
| "mentions (a # s) p = (starts_with (a # s) p \<or> mentions s p)"

section \<open>Dependents\<close>

fun convert_dependent_to_name :: "dependent \<Rightarrow> string" where
  "convert_dependent_to_name (PlainName n) = n"
| "convert_dependent_to_name (WrapperShaped h n) = n"

text \<open>
  The set \<open>self.dependents\<close> is a list without repetition; its order stands for the
  iteration order of the Python set, which the program does not choose.
\<close>

definition init_dependents :: "dependent list option \<Rightarrow> dependent list" where
  "init_dependents ds =
     (case ds of
        None \<Rightarrow> []
      | Some l \<Rightarrow> if l = [] then [] else remdups (map (\<lambda>d. PlainName (convert_dependent_to_name d)) l))"

definition add_dependent :: "('k, 'v) CacheWrap \<Rightarrow> dependent \<Rightarrow> exn + ('k, 'v) CacheWrap" where
  "add_dependent self dependent =
     (if hashable dependent
      then Inr (self\<lparr>dependents :=
                  (if dependent \<in> set (dependents self) then dependents self
                   else dependents self @ [dependent])\<rparr>)
      else Inl (TypeError ''unhashable type''))"

section \<open>The world: objects, registry and trace\<close>

text \<open>
  Wrappers are objects with identity, held in a store by address. The registry is the
  dict \<open>cache_by_name\<close> of the manager all wrappers share. The trace lists the callback
  invocations in order; \<open>Visit\<close> is a history entry written when an operation reaches
  its node-local part for a cache, and nothing reads the trace.
\<close>

datatype opname = Load | Save | DeleteSavedContent | InvalidateAndRebuild | LoadOrBuild

datatype ('k, 'v) event =
    Visit opname string
  | LoaderCall string
  | ValidatorCall "('k, 'v) dict"
  | PostProcessorCall "('k, 'v) dict option"
  | PreProcessorCall "('k, 'v) dict option"
  | SaverCall string "('k, 'v) dict option"
  | BuilderCall string
  | DeleterCall string

record ('k, 'v) world =
  heap :: "nat \<Rightarrow> ('k, 'v) CacheWrap"
  cache_by_name :: "(string \<times> nat) list"
  trace :: "('k, 'v) event list"

definition log :: "('k, 'v) event \<Rightarrow> ('k, 'v) world \<Rightarrow> ('k, 'v) world" where
  "log e w = w\<lparr>trace := trace w @ [e]\<rparr>"

definition set_contents :: "nat \<Rightarrow> ('k, 'v) dict option \<Rightarrow> ('k, 'v) world \<Rightarrow> ('k, 'v) world" where
  "set_contents self c w = w\<lparr>heap := (heap w)(self := (heap w self)\<lparr>contents := c\<rparr>)\<rparr>"

text \<open>
  Modelled from the spec: the registry module \<open>cacher\<close> is not among the sources. The
  spec gives \<open>lookup(name) -> wrapper | absent\<close> over a mapping from cache name to
  instance; a key that is not a name is registered nowhere.
\<close>

fun retrieve_cache :: "('k, 'v) world \<Rightarrow> dependent \<Rightarrow> nat option" where
  "retrieve_cache w (PlainName n) = map_of (cache_by_name w) n"
| "retrieve_cache w (WrapperShaped h n) = None"

text \<open>
  Modelled from the spec: \<open>dict_loader\<close> of module \<open>registers\<close> is not among the
  sources; the spec calls it the default constructor of an empty mapping.
\<close>

definition dict_loader :: "('k, 'v) dict option" where
  "dict_loader = Some []"

section \<open>The seen-set and the loop over dependents\<close>

type_synonym ('r, 'k, 'v) outcome = "((exn + 'r) \<times> ('k, 'v) world \<times> string set) option"

definition already_seen :: "string set option \<Rightarrow> string \<Rightarrow> bool" where
  "already_seen seen_caches n =
     (case seen_caches of None \<Rightarrow> False | Some S \<Rightarrow> S \<noteq> {} \<and> n \<in> S)"

fun seen_set :: "string set option \<Rightarrow> string set" where
  "seen_set None = {}"
| "seen_set (Some S) = S"

definition add_seen_cache :: "string set option \<Rightarrow> string \<Rightarrow> string set" where
  "add_seen_cache seen_caches n = insert n (seen_set seen_caches)"

fun dependent_seen :: "dependent \<Rightarrow> string set \<Rightarrow> bool" where
  "dependent_seen (PlainName n) S = (n \<in> S)"
| "dependent_seen (WrapperShaped h n) S = False"

text \<open>
  \<open>for dependent in self._retrieve_dependent_caches(seen_caches): body\<close>. The generator
  is lazy: each dependent is tested against the seen-set as it stands when the loop
  reaches it, after the bodies before it have run. An exception in a body ends the loop.
  \<open>None\<close> is a body that ran out of fuel.
\<close>

fun for_dependents ::
  "(('k, 'v) world \<Rightarrow> nat \<Rightarrow> string set \<Rightarrow> ('r, 'k, 'v) outcome) \<Rightarrow>
   ('k, 'v) world \<Rightarrow> dependent list \<Rightarrow> string set \<Rightarrow> (unit, 'k, 'v) outcome" where
  "for_dependents body w [] seen = Some (Inr (), w, seen)"
| "for_dependents body w (d # ds) seen =
     (if dependent_seen d seen then for_dependents body w ds seen
      else
        (case retrieve_cache w d of
           None \<Rightarrow> for_dependents body w ds seen
         | Some cache \<Rightarrow>
             (case body w cache seen of
                None \<Rightarrow> None
              | Some (Inl e, w', seen') \<Rightarrow> Some (Inl e, w', seen')
              | Some (Inr r, w', seen') \<Rightarrow> for_dependents body w' ds seen')))"

section \<open>Node-local parts of the operations\<close>

definition pre_process ::
  "('k, 'v) world \<Rightarrow> nat \<Rightarrow> ('k, 'v) dict option \<Rightarrow> (exn + ('k, 'v) dict option) \<times> ('k, 'v) world" where
  "pre_process w self c =
     (case pre_processor (heap w self) of
        None \<Rightarrow> (Inr c, w)
      | Some f \<Rightarrow> (f c, log (PreProcessorCall c) w))"

text \<open>The post-processor is called and what it returns is dropped.\<close>

definition post_process ::
  "('k, 'v) world \<Rightarrow> nat \<Rightarrow> ('k, 'v) dict option \<Rightarrow> (exn + ('k, 'v) dict option) \<times> ('k, 'v) world" where
  "post_process w self c =
     (case post_processor (heap w self) of
        None \<Rightarrow> (Inr c, w)
      | Some f \<Rightarrow>
          (case f c of
             Inl e \<Rightarrow> (Inl e, log (PostProcessorCall c) w)
           | Inr ignored \<Rightarrow> (Inr c, log (PostProcessorCall c) w)))"

text \<open>Lines 137 to 146 of \<open>load\<close>.\<close>

definition load_local ::
  "('k, 'v) world \<Rightarrow> nat \<Rightarrow> (exn + ('k, 'v) dict option) \<times> ('k, 'v) world" where
  "load_local w self =
     (let w1 = set_contents self None w in
      case loader (heap w1 self) of
        None \<Rightarrow> (Inr None, w1)
      | Some f \<Rightarrow>
          (case f (name (heap w1 self)) of
             Inl e \<Rightarrow> (Inl e, log (LoaderCall (name (heap w1 self))) w1)
           | Inr None \<Rightarrow>
               (Inr None, set_contents self None (log (LoaderCall (name (heap w1 self))) w1))
           | Inr (Some d) \<Rightarrow>
               (let w2 = set_contents self (Some d) (log (LoaderCall (name (heap w1 self))) w1) in
                case validator (heap w2 self) of
                  None \<Rightarrow>
                    (case post_process w2 self (Some d) of
                       (Inl e, w3) \<Rightarrow> (Inl e, w3)
                     | (Inr c, w3) \<Rightarrow> (Inr c, set_contents self c w3))
                | Some ok \<Rightarrow>
                    (case ok d of
                       Inl e \<Rightarrow> (Inl e, log (ValidatorCall d) w2)
                     | Inr False \<Rightarrow> (Inr None, set_contents self None (log (ValidatorCall d) w2))
                     | Inr True \<Rightarrow>
                         (case post_process (log (ValidatorCall d) w2) self (Some d) of
                            (Inl e, w3) \<Rightarrow> (Inl e, w3)
                          | (Inr c, w3) \<Rightarrow> (Inr c, set_contents self c w3))))))"

text \<open>Lines 157 and 158 of \<open>save\<close>: \<open>(self.saver and self.saver(self.name, contents)) or contents\<close>.\<close>

definition save_local ::
  "('k, 'v) world \<Rightarrow> nat \<Rightarrow> (exn + ('k, 'v) pyval) \<times> ('k, 'v) world" where
  "save_local w self =
     (case pre_process w self (contents (heap w self)) of
        (Inl e, w1) \<Rightarrow> (Inl e, w1)
      | (Inr c, w1) \<Rightarrow>
          (case saver (heap w1 self) of
             None \<Rightarrow> (Inr (contents_value c), w1)
           | Some f \<Rightarrow>
               (case f (name (heap w1 self)) c of
                  Inl e \<Rightarrow> (Inl e, log (SaverCall (name (heap w1 self)) c) w1)
                | Inr r \<Rightarrow>
                    (Inr (if truthy r then r else contents_value c),
                     log (SaverCall (name (heap w1 self)) c) w1))))"

text \<open>Lines 175 and 176 of \<open>delete_saved_content\<close>.\<close>

definition delete_saved_content_local ::
  "('k, 'v) world \<Rightarrow> nat \<Rightarrow> (exn + unit) \<times> ('k, 'v) world" where
  "delete_saved_content_local w self =
     (case deleter (heap w self) of
        None \<Rightarrow> (Inr (), w)
      | Some f \<Rightarrow>
          (case f (name (heap w self)) of
             Inl e \<Rightarrow> (Inl e, log (DeleterCall (name (heap w self))) w)
           | Inr u \<Rightarrow> (Inr (), log (DeleterCall (name (heap w self))) w)))"

section \<open>The cascading operations\<close>

text \<open>
  The operations call each other and themselves, so each takes fuel: the number of
  nested calls it may still make. \<open>None\<close> is for fuel that ran out; that enough fuel
  always gives a result is proved below. A result carries the value returned or the
  exception raised, the world as the call left it, and the seen-set, which Python shares
  by reference.
\<close>

primrec load ::
  "nat \<Rightarrow> ('k, 'v) world \<Rightarrow> nat \<Rightarrow> bool \<Rightarrow> string set option \<Rightarrow> (('k, 'v) dict option, 'k, 'v) outcome" where
  "load 0 w self apply_to_dependents seen_caches = None"
| "load (Suc n) w self apply_to_dependents seen_caches =
     (if already_seen seen_caches (name (heap w self))
      then Some (Inr None, w, seen_set seen_caches)
      else
        (case (if apply_to_dependents
               then for_dependents
                      (\<lambda>w' dependent seen. load n w' dependent apply_to_dependents (Some seen))
                      w (dependents (heap w self))
                      (add_seen_cache seen_caches (name (heap w self)))
               else Some (Inr (), w, add_seen_cache seen_caches (name (heap w self)))) of
           None \<Rightarrow> None
         | Some (Inl e, w1, seen1) \<Rightarrow> Some (Inl e, w1, seen1)
         | Some (Inr u, w1, seen1) \<Rightarrow>
             (case load_local (log (Visit Load (name (heap w1 self))) w1) self of
                (r, w2) \<Rightarrow> Some (r, w2, seen1))))"

primrec save ::
  "nat \<Rightarrow> ('k, 'v) world \<Rightarrow> nat \<Rightarrow> bool \<Rightarrow> string set option \<Rightarrow> (('k, 'v) pyval, 'k, 'v) outcome" where
  "save 0 w self apply_to_dependents seen_caches = None"
| "save (Suc n) w self apply_to_dependents seen_caches =
     (if already_seen seen_caches (name (heap w self))
      then Some (Inr PyNone, w, seen_set seen_caches)
      else
        (case (if apply_to_dependents
               then for_dependents
                      (\<lambda>w' dependent seen. save n w' dependent apply_to_dependents (Some seen))
                      w (dependents (heap w self))
                      (add_seen_cache seen_caches (name (heap w self)))
               else Some (Inr (), w, add_seen_cache seen_caches (name (heap w self)))) of
           None \<Rightarrow> None
         | Some (Inl e, w1, seen1) \<Rightarrow> Some (Inl e, w1, seen1)
         | Some (Inr u, w1, seen1) \<Rightarrow>
             (case save_local (log (Visit Save (name (heap w1 self))) w1) self of
                (r, w2) \<Rightarrow> Some (r, w2, seen1))))"

definition invalidate ::
  "nat \<Rightarrow> ('k, 'v) world \<Rightarrow> nat \<Rightarrow> bool \<Rightarrow> string set option \<Rightarrow> (('k, 'v) dict option, 'k, 'v) outcome" where
  "invalidate n w self apply_to_dependents seen_caches = load n w self apply_to_dependents seen_caches"

primrec delete_saved_content ::
  "nat \<Rightarrow> ('k, 'v) world \<Rightarrow> nat \<Rightarrow> bool \<Rightarrow> string set option \<Rightarrow> (unit, 'k, 'v) outcome" where
  "delete_saved_content 0 w self apply_to_dependents seen_caches = None"
| "delete_saved_content (Suc n) w self apply_to_dependents seen_caches =
     (if already_seen seen_caches (name (heap w self))
      then Some (Inr (), w, seen_set seen_caches)
      else
        (case (if apply_to_dependents
               then for_dependents
                      (\<lambda>w' dependent seen. delete_saved_content n w' dependent apply_to_dependents (Some seen))
                      w (dependents (heap w self))
                      (add_seen_cache seen_caches (name (heap w self)))
               else Some (Inr (), w, add_seen_cache seen_caches (name (heap w self)))) of
           None \<Rightarrow> None
         | Some (Inl e, w1, seen1) \<Rightarrow> Some (Inl e, w1, seen1)
         | Some (Inr u, w1, seen1) \<Rightarrow>
             (case delete_saved_content_local
                     (log (Visit DeleteSavedContent (name (heap w1 self))) w1) self of
                (r, w2) \<Rightarrow> Some (r, w2, seen1))))"

text \<open>\<open>_build\<close>: the builder or \<open>dict_loader()\<close>, the post-processor, then \<open>self.save()\<close>.\<close>

definition build ::
  "nat \<Rightarrow> ('k, 'v) world \<Rightarrow> nat \<Rightarrow> ((exn + ('k, 'v) dict option) \<times> ('k, 'v) world) option" where
  "build n w self =
     (case (case builder (heap w self) of
              None \<Rightarrow> (Inr dict_loader, w)
            | Some b \<Rightarrow> (b (name (heap w self)), log (BuilderCall (name (heap w self))) w)) of
        (Inl e, w1) \<Rightarrow> Some (Inl e, w1)
      | (Inr built, w1) \<Rightarrow>
          (case post_process w1 self built of
             (Inl e, w2) \<Rightarrow> Some (Inl e, w2)
           | (Inr c, w2) \<Rightarrow>
               (case save n (set_contents self c w2) self False None of
                  None \<Rightarrow> None
                | Some (Inl e, w3, seen) \<Rightarrow> Some (Inl e, w3)
                | Some (Inr r, w3, seen) \<Rightarrow> Some (Inr (contents (heap w3 self)), w3))))"

text \<open>Lines 183 to 185 of \<open>invalidate_and_rebuild\<close>.\<close>

definition invalidate_and_rebuild_local ::
  "nat \<Rightarrow> ('k, 'v) world \<Rightarrow> nat \<Rightarrow> ((exn + unit) \<times> ('k, 'v) world) option" where
  "invalidate_and_rebuild_local n w self =
     (case invalidate n w self False None of
        None \<Rightarrow> None
      | Some (Inl e, w1, seen1) \<Rightarrow> Some (Inl e, w1)
      | Some (Inr c, w1, seen1) \<Rightarrow>
          (case delete_saved_content n w1 self False None of
             None \<Rightarrow> None
           | Some (Inl e, w2, seen2) \<Rightarrow> Some (Inl e, w2)
           | Some (Inr u, w2, seen2) \<Rightarrow>
               (case build n w2 self of
                  None \<Rightarrow> None
                | Some (Inl e, w3) \<Rightarrow> Some (Inl e, w3)
                | Some (Inr c', w3) \<Rightarrow> Some (Inr (), w3))))"

primrec invalidate_and_rebuild ::
  "nat \<Rightarrow> ('k, 'v) world \<Rightarrow> nat \<Rightarrow> bool \<Rightarrow> string set option \<Rightarrow> (unit, 'k, 'v) outcome" where
  "invalidate_and_rebuild 0 w self apply_to_dependents seen_caches = None"
| "invalidate_and_rebuild (Suc n) w self apply_to_dependents seen_caches =
     (if already_seen seen_caches (name (heap w self))
      then Some (Inr (), w, seen_set seen_caches)
      else
        (case invalidate_and_rebuild_local n
                (log (Visit InvalidateAndRebuild (name (heap w self))) w) self of
           None \<Rightarrow> None
         | Some (Inl e, w1) \<Rightarrow> Some (Inl e, w1, add_seen_cache seen_caches (name (heap w self)))
         | Some (Inr u, w1) \<Rightarrow>
             (if apply_to_dependents
              then
                (case for_dependents
                        (\<lambda>w' dependent seen.
                            invalidate_and_rebuild n w' dependent apply_to_dependents (Some seen))
                        w1 (dependents (heap w1 self))
                        (add_seen_cache seen_caches (name (heap w self))) of
                   None \<Rightarrow> None
                 | Some (Inl e, w2, seen2) \<Rightarrow> Some (Inl e, w2, seen2)
                 | Some (Inr u', w2, seen2) \<Rightarrow> Some (Inr (), w2, seen2))
              else Some (Inr (), w1, add_seen_cache seen_caches (name (heap w self))))))"

text \<open>Lines 200 to 204 of \<open>load_or_build\<close>.\<close>

definition load_or_build_local ::
  "nat \<Rightarrow> ('k, 'v) world \<Rightarrow> nat \<Rightarrow>
   ((exn + (bool \<times> ('k, 'v) dict option) option) \<times> ('k, 'v) world) option" where
  "load_or_build_local n w self =
     (case load n w self False None of
        None \<Rightarrow> None
      | Some (Inl e, w1, seen1) \<Rightarrow> Some (Inl e, w1)
      | Some (Inr (Some d), w1, seen1) \<Rightarrow> Some (Inr (Some (True, contents (heap w1 self))), w1)
      | Some (Inr None, w1, seen1) \<Rightarrow>
          (case build n w1 self of
             None \<Rightarrow> None
           | Some (Inl e, w2) \<Rightarrow> Some (Inl e, w2)
           | Some (Inr c, w2) \<Rightarrow> Some (Inr (Some (False, contents (heap w2 self))), w2)))"

primrec load_or_build ::
  "nat \<Rightarrow> ('k, 'v) world \<Rightarrow> nat \<Rightarrow> bool \<Rightarrow> string set option \<Rightarrow>
   ((bool \<times> ('k, 'v) dict option) option, 'k, 'v) outcome" where
  "load_or_build 0 w self apply_to_dependents seen_caches = None"
| "load_or_build (Suc n) w self apply_to_dependents seen_caches =
     (if already_seen seen_caches (name (heap w self))
      then Some (Inr None, w, seen_set seen_caches)
      else
        (case (if apply_to_dependents
               then for_dependents
                      (\<lambda>w' dependent seen. load_or_build n w' dependent apply_to_dependents (Some seen))
                      w (dependents (heap w self))
                      (add_seen_cache seen_caches (name (heap w self)))
               else Some (Inr (), w, add_seen_cache seen_caches (name (heap w self)))) of
           None \<Rightarrow> None
         | Some (Inl e, w1, seen1) \<Rightarrow> Some (Inl e, w1, seen1)
         | Some (Inr u, w1, seen1) \<Rightarrow>
             (case load_or_build_local n (log (Visit LoadOrBuild (name (heap w1 self))) w1) self of
                None \<Rightarrow> None
              | Some (r, w2) \<Rightarrow> Some (r, w2, seen1))))"

section \<open>The algorithm of the spec\<close>

text \<open>
  The cascade as the spec words it, for any node-local action: (1) return at once when
  the name is in the seen-set, (2) add the name, (3) when cascading is requested, recurse
  into each dependent the registry resolves, with the same seen-set, (4) perform the
  node-local action. \<open>cascade_action_first\<close> is the same with steps 3 and 4 exchanged.
\<close>

primrec cascade ::
  "opname \<Rightarrow> (nat \<Rightarrow> ('k, 'v) world \<Rightarrow> nat \<Rightarrow> ((exn + 'r) \<times> ('k, 'v) world) option) \<Rightarrow> 'r \<Rightarrow>
   nat \<Rightarrow> ('k, 'v) world \<Rightarrow> nat \<Rightarrow> bool \<Rightarrow> string set option \<Rightarrow> ('r, 'k, 'v) outcome" where
  "cascade opn act dflt 0 w self cascading seen_caches = None"
| "cascade opn act dflt (Suc n) w self cascading seen_caches =
     (if already_seen seen_caches (name (heap w self))
      then Some (Inr dflt, w, seen_set seen_caches)
      else
        (case (if cascading
               then for_dependents
                      (\<lambda>w' dependent seen. cascade opn act dflt n w' dependent cascading (Some seen))
                      w (dependents (heap w self))
                      (add_seen_cache seen_caches (name (heap w self)))
               else Some (Inr (), w, add_seen_cache seen_caches (name (heap w self)))) of
           None \<Rightarrow> None
         | Some (Inl e, w1, seen1) \<Rightarrow> Some (Inl e, w1, seen1)
         | Some (Inr u, w1, seen1) \<Rightarrow>
             (case act n (log (Visit opn (name (heap w1 self))) w1) self of
                None \<Rightarrow> None
              | Some (r, w2) \<Rightarrow> Some (r, w2, seen1))))"

primrec cascade_action_first ::
  "opname \<Rightarrow> (nat \<Rightarrow> ('k, 'v) world \<Rightarrow> nat \<Rightarrow> ((exn + 'r) \<times> ('k, 'v) world) option) \<Rightarrow> 'r \<Rightarrow>
   nat \<Rightarrow> ('k, 'v) world \<Rightarrow> nat \<Rightarrow> bool \<Rightarrow> string set option \<Rightarrow> ('r, 'k, 'v) outcome" where
  "cascade_action_first opn act dflt 0 w self cascading seen_caches = None"
| "cascade_action_first opn act dflt (Suc n) w self cascading seen_caches =
     (if already_seen seen_caches (name (heap w self))
      then Some (Inr dflt, w, seen_set seen_caches)
      else
        (case act n (log (Visit opn (name (heap w self))) w) self of
           None \<Rightarrow> None
         | Some (Inl e, w1) \<Rightarrow> Some (Inl e, w1, add_seen_cache seen_caches (name (heap w self)))
         | Some (Inr r, w1) \<Rightarrow>
             (case (if cascading
                    then for_dependents
                           (\<lambda>w' dependent seen.
                               cascade_action_first opn act dflt n w' dependent cascading (Some seen))
                           w1 (dependents (heap w1 self))
                           (add_seen_cache seen_caches (name (heap w self)))
                    else Some (Inr (), w1, add_seen_cache seen_caches (name (heap w self)))) of
                None \<Rightarrow> None
              | Some (Inl e, w2, seen2) \<Rightarrow> Some (Inl e, w2, seen2)
              | Some (Inr u, w2, seen2) \<Rightarrow> Some (Inr dflt, w2, seen2))))"

text \<open>The names visited by an operation, in the order of a trace.\<close>

fun visits :: "opname \<Rightarrow> ('k, 'v) event list \<Rightarrow> string list" where
  "visits opn [] = []"
| "visits opn (Visit o' n # es) = (if o' = opn then n # visits opn es else visits opn es)"
| "visits opn (e # es) = visits opn es"

section \<open>Example wrappers and worlds\<close>

text \<open>
  Concrete inputs for the results below: a wrapper with no callback and absent contents,
  wrappers with one callback each, a world holding a single wrapper, and three dependency
  graphs: a cycle (A and B depend on each other), a chain (A depends on B) and a diamond
  (A depends on B and C, both of which depend on D).
\<close>

definition plain_wrapper :: "string \<Rightarrow> dependent list \<Rightarrow> (string, string) CacheWrap" where
  "plain_wrapper nm ds =
     \<lparr>class_name = ''CacheWrap'', name = nm, contents = None, dependents = ds,
      loader = None, saver = None, builder = None, deleter = None,
      pre_processor = None, post_processor = None, validator = None\<rparr>"

definition single_world :: "(string, string) CacheWrap \<Rightarrow> (string, string) world" where
  "single_world c = \<lparr>heap = (\<lambda>i. c), cache_by_name = [(name c, 0)], trace = []\<rparr>"

definition quiet_saver_wrapper :: "(string, string) CacheWrap" where
  "quiet_saver_wrapper =
     (plain_wrapper ''users'' [])
       \<lparr>contents := Some [(''k'', ''v'')], saver := Some (\<lambda>n c. Inr PyNone)\<rparr>"

definition replacing_post_processor_wrapper :: "(string, string) CacheWrap" where
  "replacing_post_processor_wrapper =
     (plain_wrapper ''users'' [])
       \<lparr>loader := Some (\<lambda>n. Inr (Some [(''k'', ''v'')])),
        post_processor := Some (\<lambda>c. Inr (Some []))\<rparr>"

definition none_builder_wrapper :: "(string, string) CacheWrap" where
  "none_builder_wrapper = (plain_wrapper ''users'' [])\<lparr>builder := Some (\<lambda>n. Inr None)\<rparr>"

definition dict_builder_wrapper :: "(string, string) CacheWrap" where
  "dict_builder_wrapper =
     (plain_wrapper ''users'' [])\<lparr>builder := Some (\<lambda>n. Inr (Some [(''k'', ''v'')]))\<rparr>"

definition failing_loader_wrapper :: "(string, string) CacheWrap" where
  "failing_loader_wrapper =
     (plain_wrapper ''users'' [])
       \<lparr>contents := Some [(''k'', ''v'')], loader := Some (\<lambda>n. Inl (IOError ''disk''))\<rparr>"

definition deleter_wrapper :: "(string, string) CacheWrap" where
  "deleter_wrapper =
     (plain_wrapper ''users'' [])
       \<lparr>contents := Some [(''k'', ''v'')], deleter := Some (\<lambda>n. Inr ())\<rparr>"

definition cycle_world :: "(string, string) world" where
  "cycle_world =
     \<lparr>heap = (\<lambda>i. if i = 0 then plain_wrapper ''A'' [PlainName ''B'']
                  else plain_wrapper ''B'' [PlainName ''A'']),
      cache_by_name = [(''A'', 0), (''B'', 1)],
      trace = []\<rparr>"

definition chain_world :: "(string, string) world" where
  "chain_world =
     \<lparr>heap = (\<lambda>i. if i = 0 then plain_wrapper ''A'' [PlainName ''B'']
                  else plain_wrapper ''B'' []),
      cache_by_name = [(''A'', 0), (''B'', 1)],
      trace = []\<rparr>"

definition diamond_world :: "(string, string) world" where
  "diamond_world =
     \<lparr>heap = (\<lambda>i. if i = 0 then plain_wrapper ''A'' [PlainName ''B'', PlainName ''C'']
                  else if i = 1 then plain_wrapper ''B'' [PlainName ''D'']
                  else if i = 2 then plain_wrapper ''C'' [PlainName ''D'']
                  else plain_wrapper ''D'' []),
      cache_by_name = [(''A'', 0), (''B'', 1), (''C'', 2), (''D'', 3)],
      trace = []\<rparr>"

section \<open>Reading a result\<close>

text \<open>
  Projections of what a call returns: the value returned or exception raised, the contents
  of a wrapper afterwards, the world afterwards, the names visited. \<open>returns_visiting_once\<close>
  says that a call returned and that the names it visited for the operation are pairwise
  different.
\<close>

definition returned :: "('r, 'k, 'v) outcome \<Rightarrow> (exn + 'r) option" where
  "returned res = (case res of None \<Rightarrow> None | Some (r, w, S) \<Rightarrow> Some r)"

definition contents_after :: "nat \<Rightarrow> ('r, 'k, 'v) outcome \<Rightarrow> ('k, 'v) dict option option" where
  "contents_after self res =
     (case res of None \<Rightarrow> None | Some (r, w, S) \<Rightarrow> Some (contents (heap w self)))"

definition built_contents ::
  "nat \<Rightarrow> ((exn + 'r) \<times> ('k, 'v) world) option \<Rightarrow> ('k, 'v) dict option option" where
  "built_contents self res =
     (case res of None \<Rightarrow> None | Some (r, w) \<Rightarrow> Some (contents (heap w self)))"

definition world_after :: "('r, 'k, 'v) outcome \<Rightarrow> ('k, 'v) world option" where
  "world_after res = (case res of None \<Rightarrow> None | Some (r, w, S) \<Rightarrow> Some w)"

definition visited :: "opname \<Rightarrow> ('r, 'k, 'v) outcome \<Rightarrow> string list option" where
  "visited opn res = (case res of None \<Rightarrow> None | Some (r, w, S) \<Rightarrow> Some (visits opn (trace w)))"

definition returns_visiting_once ::
  "opname \<Rightarrow> ('k, 'v) world \<Rightarrow> ('r, 'k, 'v) outcome \<Rightarrow> bool" where
  "returns_visiting_once opn w res \<longleftrightarrow>
     (\<exists>r w' S' vs. res = Some (r, w', S')
        \<and> visits opn (trace w') = visits opn (trace w) @ vs \<and> distinct vs)"

section \<open>Invariants of a traversal\<close>

text \<open>
  No operation changes a name, a dependents set or the registry (\<open>same_graph\<close>). A call
  only adds to the seen-set, and the names it visits are new in the seen-set and pairwise
  different (\<open>step_ok\<close>). The number of names that remain to be seen (\<open>todo\<close>) bounds
  the depth of the recursion.
\<close>

definition same_graph :: "('k, 'v) world \<Rightarrow> ('k, 'v) world \<Rightarrow> bool" where
  "same_graph w w' \<longleftrightarrow>
     cache_by_name w' = cache_by_name w \<and>
     (\<forall>i. name (heap w' i) = name (heap w i) \<and> dependents (heap w' i) = dependents (heap w i))"

definition step_ok :: "opname \<Rightarrow> ('k, 'v) world \<Rightarrow> string set \<Rightarrow> ('k, 'v) world \<Rightarrow> string set \<Rightarrow> bool" where
  "step_ok opn w S w' S' \<longleftrightarrow>
     same_graph w w' \<and> S \<subseteq> S' \<and>
     (\<exists>vs. visits opn (trace w') = visits opn (trace w) @ vs \<and> distinct vs \<and> set vs \<subseteq> S' - S)"

definition body_ok ::
  "opname \<Rightarrow> (('k, 'v) world \<Rightarrow> nat \<Rightarrow> string set \<Rightarrow> ('r, 'k, 'v) outcome) \<Rightarrow> bool" where
  "body_ok opn body \<longleftrightarrow>
     (\<forall>w j S r w' S'. body w j S = Some (r, w', S') \<longrightarrow> step_ok opn w S w' S')"

definition action_ok ::
  "opname \<Rightarrow> (nat \<Rightarrow> ('k, 'v) world \<Rightarrow> nat \<Rightarrow> ((exn + 'r) \<times> ('k, 'v) world) option) \<Rightarrow> bool" where
  "action_ok opn act \<longleftrightarrow>
     (\<forall>n w i r w'. act n w i = Some (r, w') \<longrightarrow>
        same_graph w w' \<and> visits opn (trace w') = visits opn (trace w))"

definition registered_names :: "('k, 'v) world \<Rightarrow> string set" where
  "registered_names w = (\<lambda>i. name (heap w i)) ` snd ` set (cache_by_name w)"

definition todo :: "('k, 'v) world \<Rightarrow> nat \<Rightarrow> string set \<Rightarrow> nat" where
  "todo w self S = card (insert (name (heap w self)) (registered_names w) - S)"

definition action_total ::
  "nat \<Rightarrow> (nat \<Rightarrow> ('k, 'v) world \<Rightarrow> nat \<Rightarrow> ((exn + 'r) \<times> ('k, 'v) world) option) \<Rightarrow> bool" where
  "action_total k act \<longleftrightarrow> (\<forall>n w i. k \<le> n \<longrightarrow> act n w i \<noteq> None)"

section \<open>Lemmas\<close>

lemma heap_log [simp]: "heap (log e w) = heap w"
  by (simp add: log_def)

lemma cache_by_name_log [simp]: "cache_by_name (log e w) = cache_by_name w"
  by (simp add: log_def)

lemma trace_log [simp]: "trace (log e w) = trace w @ [e]"
  by (simp add: log_def)

lemma cache_by_name_set_contents [simp]: "cache_by_name (set_contents i c w) = cache_by_name w"
  by (simp add: set_contents_def)

lemma trace_set_contents [simp]: "trace (set_contents i c w) = trace w"
  by (simp add: set_contents_def)

lemma name_set_contents [simp]: "name (heap (set_contents i c w) j) = name (heap w j)"
  by (simp add: set_contents_def)

lemma dependents_set_contents [simp]: "dependents (heap (set_contents i c w) j) = dependents (heap w j)"
  by (simp add: set_contents_def)

lemma callbacks_set_contents [simp]:
  "loader (heap (set_contents i c w) j) = loader (heap w j)"
  "saver (heap (set_contents i c w) j) = saver (heap w j)"
  "builder (heap (set_contents i c w) j) = builder (heap w j)"
  "deleter (heap (set_contents i c w) j) = deleter (heap w j)"
  "pre_processor (heap (set_contents i c w) j) = pre_processor (heap w j)"
  "post_processor (heap (set_contents i c w) j) = post_processor (heap w j)"
  "validator (heap (set_contents i c w) j) = validator (heap w j)"
  by (simp_all add: set_contents_def)

lemma contents_set_contents [simp]:
  "contents (heap (set_contents i c w) j) = (if j = i then c else contents (heap w j))"
  by (simp add: set_contents_def)

lemma visits_append [simp]: "visits opn (xs @ ys) = visits opn xs @ visits opn ys"
  by (induction opn xs rule: visits.induct) simp_all

lemma same_graph_refl [simp]: "same_graph w w"
  by (simp add: same_graph_def)

lemma same_graph_trans: "same_graph w w1 \<Longrightarrow> same_graph w1 w2 \<Longrightarrow> same_graph w w2"
  by (simp add: same_graph_def)

lemma same_graph_log [simp]: "same_graph w (log e w')  = same_graph w w'"
  by (simp add: same_graph_def)

lemma same_graph_set_contents [simp]: "same_graph w (set_contents i c w') = same_graph w w'"
  by (simp add: same_graph_def)

lemma step_ok_refl [simp]: "step_ok opn w S w S"
  by (simp add: step_ok_def)

lemma step_ok_trans:
  assumes "step_ok opn w S w1 S1" and "step_ok opn w1 S1 w2 S2"
  shows "step_ok opn w S w2 S2"
proof -
  from assms obtain vs1 vs2 where
    g: "same_graph w w1" "same_graph w1 w2" and s: "S \<subseteq> S1" "S1 \<subseteq> S2" and
    v1: "visits opn (trace w1) = visits opn (trace w) @ vs1" "distinct vs1" "set vs1 \<subseteq> S1 - S" and
    v2: "visits opn (trace w2) = visits opn (trace w1) @ vs2" "distinct vs2" "set vs2 \<subseteq> S2 - S1"
    unfolding step_ok_def by blast
  have "visits opn (trace w2) = visits opn (trace w) @ (vs1 @ vs2)"
    using v1 v2 by simp
  moreover have "distinct (vs1 @ vs2)"
    using v1 v2 by auto
  moreover have "set (vs1 @ vs2) \<subseteq> S2 - S"
    using v1 v2 s by auto
  ultimately show ?thesis
    unfolding step_ok_def using g s same_graph_trans by blast
qed

lemma for_dependents_ok:
  assumes "body_ok opn body"
  shows "for_dependents body w ds S = Some (r, w', S') \<Longrightarrow> step_ok opn w S w' S'"
proof (induction ds arbitrary: w S)
  case Nil
  then show ?case by simp
next
  case (Cons d ds)
  show ?case
  proof (cases "dependent_seen d S \<or> retrieve_cache w d = None")
    case True
    then have "for_dependents body w ds S = Some (r, w', S')"
      using Cons.prems by (auto split: if_splits)
    then show ?thesis by (rule Cons.IH)
  next
    case False
    then obtain j where j: "retrieve_cache w d = Some j" and ns: "\<not> dependent_seen d S"
      by auto
    from Cons.prems j ns obtain x w1 S1 where b: "body w j S = Some (x, w1, S1)"
      by (auto split: option.splits)
    have ok1: "step_ok opn w S w1 S1"
      using assms b unfolding body_ok_def by blast
    show ?thesis
    proof (cases x)
      case (Inl e)
      then have "w' = w1" "S' = S1"
        using Cons.prems j ns b by auto
      then show ?thesis using ok1 by simp
    next
      case (Inr y)
      then have "for_dependents body w1 ds S1 = Some (r, w', S')"
        using Cons.prems j ns b by auto
      then have "step_ok opn w1 S1 w' S'" by (rule Cons.IH)
      then show ?thesis using ok1 step_ok_trans by blast
    qed
  qed
qed

lemma not_already_seen: "\<not> already_seen seen n \<Longrightarrow> n \<notin> seen_set seen"
  by (cases seen) (auto simp: already_seen_def)

lemma already_seen_iff: "already_seen seen n \<longleftrightarrow> n \<in> seen_set seen"
  by (cases seen) (auto simp: already_seen_def)

lemma visit_step_ok:
  assumes ok: "step_ok opn w (insert n S) w1 S1" and n: "n \<notin> S"
    and g: "same_graph w1 w2" and v: "visits opn (trace w2) = visits opn (trace w1) @ [n]"
  shows "step_ok opn w S w2 S1"
proof -
  from ok obtain vs where
    g1: "same_graph w w1" and s: "insert n S \<subseteq> S1" and
    v1: "visits opn (trace w1) = visits opn (trace w) @ vs" "distinct vs" "set vs \<subseteq> S1 - insert n S"
    unfolding step_ok_def by blast
  have "visits opn (trace w2) = visits opn (trace w) @ (vs @ [n])"
    using v v1 by simp
  moreover have "distinct (vs @ [n])"
    using v1 by auto
  moreover have "set (vs @ [n]) \<subseteq> S1 - S"
    using v1 s n by auto
  ultimately show ?thesis
    unfolding step_ok_def using g g1 s same_graph_trans by blast
qed

lemma step_ok_weaken:
  assumes "step_ok opn w (insert n S) w1 S1"
  shows "step_ok opn w S w1 S1"
  using assms unfolding step_ok_def by blast

lemma cascade_ok:
  assumes act: "action_ok opn act"
  shows "cascade opn act dflt n w self a seen = Some (r, w', S') \<Longrightarrow>
         step_ok opn w (seen_set seen) w' S'"
proof (induction n arbitrary: w self seen r w' S')
  case 0
  then show ?case by simp
next
  case (Suc n)
  let ?nm = "name (heap w self)"
  let ?S1 = "add_seen_cache seen ?nm"
  let ?body = "\<lambda>w' dependent seen. cascade opn act dflt n w' dependent a (Some seen)"
  let ?loop = "if a then for_dependents ?body w (dependents (heap w self)) ?S1
               else Some (Inr (), w, ?S1)"
  show ?case
  proof (cases "already_seen seen ?nm")
    case True
    then show ?thesis using Suc.prems by simp
  next
    case False
    then have nm: "?nm \<notin> seen_set seen" by (rule not_already_seen)
    have bok: "body_ok opn ?body"
      unfolding body_ok_def using Suc.IH by fastforce
    from Suc.prems False obtain x w1 S1 where loop: "?loop = Some (x, w1, S1)"
      by (auto split: option.splits)
    have ok1: "step_ok opn w (insert ?nm (seen_set seen)) w1 S1"
    proof (cases a)
      case True
      then show ?thesis
        using loop for_dependents_ok [OF bok] by (simp add: add_seen_cache_def)
    next
      case False
      then show ?thesis using loop by (auto simp: add_seen_cache_def step_ok_def)
    qed
    show ?thesis
    proof (cases x)
      case (Inl e)
      then have "w' = w1" "S' = S1"
        using Suc.prems False loop by auto
      then show ?thesis using ok1 step_ok_weaken by blast
    next
      case (Inr u)
      then have a2: "act n (log (Visit opn (name (heap w1 self))) w1) self = Some (r, w')" and "S' = S1"
        using Suc.prems False loop by (auto split: option.splits)
      have g1: "same_graph w w1" using ok1 by (simp add: step_ok_def)
      then have nm1: "name (heap w1 self) = ?nm" by (simp add: same_graph_def)
      from act a2 have
        "same_graph (log (Visit opn (name (heap w1 self))) w1) w' \<and>
         visits opn (trace w') = visits opn (trace (log (Visit opn (name (heap w1 self))) w1))"
        unfolding action_ok_def by blast
      then have g2: "same_graph w1 w'"
        and v: "visits opn (trace w') = visits opn (trace w1) @ [?nm]"
        by (simp_all add: nm1 same_graph_def)
      show ?thesis
        using visit_step_ok [OF ok1 nm g2 v] \<open>S' = S1\<close> by simp
    qed
  qed
qed

lemma visit_first_step_ok:
  assumes "same_graph w w1" and "visits opn (trace w1) = visits opn (trace w) @ [n]" and "n \<notin> S"
  shows "step_ok opn w S w1 (insert n S)"
  using assms unfolding step_ok_def by auto

lemma cascade_action_first_ok:
  assumes act: "action_ok opn act"
  shows "cascade_action_first opn act dflt n w self a seen = Some (r, w', S') \<Longrightarrow>
         step_ok opn w (seen_set seen) w' S'"
proof (induction n arbitrary: w self seen r w' S')
  case 0
  then show ?case by simp
next
  case (Suc n)
  let ?nm = "name (heap w self)"
  let ?S1 = "add_seen_cache seen ?nm"
  let ?body = "\<lambda>w' dependent seen. cascade_action_first opn act dflt n w' dependent a (Some seen)"
  show ?case
  proof (cases "already_seen seen ?nm")
    case True
    then show ?thesis using Suc.prems by simp
  next
    case False
    then have nm: "?nm \<notin> seen_set seen" by (rule not_already_seen)
    have bok: "body_ok opn ?body"
      unfolding body_ok_def using Suc.IH by fastforce
    from Suc.prems False obtain x w1 where a1: "act n (log (Visit opn ?nm) w) self = Some (x, w1)"
      by (auto split: option.splits)
    with act have
      "same_graph (log (Visit opn ?nm) w) w1 \<and>
       visits opn (trace w1) = visits opn (trace (log (Visit opn ?nm) w))"
      unfolding action_ok_def by blast
    then have g1: "same_graph w w1" and v: "visits opn (trace w1) = visits opn (trace w) @ [?nm]"
      by (simp_all add: same_graph_def)
    have ok1: "step_ok opn w (seen_set seen) w1 (insert ?nm (seen_set seen))"
      using g1 v nm by (rule visit_first_step_ok)
    show ?thesis
    proof (cases x)
      case (Inl e)
      then have "w' = w1" "S' = insert ?nm (seen_set seen)"
        using Suc.prems False a1 by (auto simp: add_seen_cache_def)
      then show ?thesis using ok1 by simp
    next
      case (Inr u)
      show ?thesis
      proof (cases a)
        case True
        with Inr Suc.prems False a1 obtain y where
          "for_dependents ?body w1 (dependents (heap w1 self)) ?S1 = Some (y, w', S')"
          by (auto split: option.splits sum.splits)
        then have "step_ok opn w1 (insert ?nm (seen_set seen)) w' S'"
          using for_dependents_ok [OF bok] by (simp add: add_seen_cache_def)
        then show ?thesis using ok1 step_ok_trans by blast
      next
        case False
        with Inr Suc.prems \<open>\<not> already_seen seen ?nm\<close> a1
        have "w' = w1" "S' = insert ?nm (seen_set seen)"
          by (auto simp: add_seen_cache_def)
        then show ?thesis using ok1 by simp
      qed
    qed
  qed
qed

lemma finite_registered_names [simp]: "finite (registered_names w)"
  by (simp add: registered_names_def)

lemma registered_names_same_graph: "same_graph w w' \<Longrightarrow> registered_names w' = registered_names w"
  by (simp add: registered_names_def same_graph_def)

lemma retrieve_cache_registered:
  "retrieve_cache w d = Some j \<Longrightarrow> j \<in> snd ` set (cache_by_name w)"
  by (cases d) (auto dest: map_of_SomeD intro: rev_image_eqI)

lemma todo_less:
  assumes g: "same_graph w w'" and j: "j \<in> snd ` set (cache_by_name w)"
    and s: "insert (name (heap w self)) S \<subseteq> S'" and n: "name (heap w self) \<notin> S"
  shows "todo w' j S' < todo w self S"
proof -
  have "name (heap w' j) \<in> registered_names w"
    using g j by (auto simp: registered_names_def same_graph_def)
  then have "insert (name (heap w' j)) (registered_names w') = registered_names w"
    using registered_names_same_graph [OF g] by auto
  moreover have "registered_names w - S' \<subset> insert (name (heap w self)) (registered_names w) - S"
    using s n by auto
  ultimately show ?thesis
    unfolding todo_def by (simp add: psubset_card_mono)
qed

lemma for_dependents_total:
  assumes bok: "body_ok opn body"
    and tot: "\<And>w' j S'. same_graph w0 w' \<Longrightarrow> S0 \<subseteq> S' \<Longrightarrow> j \<in> snd ` set (cache_by_name w0) \<Longrightarrow>
                body w' j S' \<noteq> None"
  shows "same_graph w0 w \<Longrightarrow> S0 \<subseteq> S \<Longrightarrow> for_dependents body w ds S \<noteq> None"
proof (induction ds arbitrary: w S)
  case Nil
  then show ?case by simp
next
  case (Cons d ds)
  show ?case
  proof (cases "dependent_seen d S \<or> retrieve_cache w d = None")
    case True
    then show ?thesis using Cons.IH [OF Cons.prems] by auto
  next
    case False
    then obtain j where j: "retrieve_cache w d = Some j" and ns: "\<not> dependent_seen d S"
      by auto
    have "j \<in> snd ` set (cache_by_name w0)"
      using retrieve_cache_registered [OF j] Cons.prems(1) by (simp add: same_graph_def)
    then have "body w j S \<noteq> None"
      using tot Cons.prems by blast
    then obtain x w1 S1 where b: "body w j S = Some (x, w1, S1)"
      by auto
    have ok1: "step_ok opn w S w1 S1"
      using bok b unfolding body_ok_def by blast
    then have "same_graph w0 w1" "S0 \<subseteq> S1"
      using Cons.prems same_graph_trans by (auto simp: step_ok_def)
    then have "for_dependents body w1 ds S1 \<noteq> None" by (rule Cons.IH)
    then show ?thesis using j ns b by (cases x) auto
  qed
qed

lemma cascade_total:
  assumes act: "action_ok opn act" and tot: "action_total k act"
  shows "todo w self (seen_set seen) + k < n \<Longrightarrow> cascade opn act dflt n w self a seen \<noteq> None"
proof (induction n arbitrary: w self seen)
  case 0
  then show ?case by simp
next
  case (Suc n)
  let ?nm = "name (heap w self)"
  let ?S1 = "add_seen_cache seen ?nm"
  let ?body = "\<lambda>w' dependent seen. cascade opn act dflt n w' dependent a (Some seen)"
  let ?loop = "if a then for_dependents ?body w (dependents (heap w self)) ?S1
               else Some (Inr (), w, ?S1)"
  show ?case
  proof (cases "already_seen seen ?nm")
    case True
    then show ?thesis by simp
  next
    case False
    then have nm: "?nm \<notin> seen_set seen" by (rule not_already_seen)
    have bok: "body_ok opn ?body"
      unfolding body_ok_def using cascade_ok [OF act] by fastforce
    have "?body w' j S' \<noteq> None"
      if "same_graph w w'" "?S1 \<subseteq> S'" "j \<in> snd ` set (cache_by_name w)" for w' j S'
    proof -
      have "todo w' j S' < todo w self (seen_set seen)"
        using that nm by (intro todo_less) (auto simp: add_seen_cache_def)
      then have "todo w' j (seen_set (Some S')) + k < n"
        using Suc.prems by simp
      then show ?thesis by (rule Suc.IH)
    qed
    then have "for_dependents ?body w (dependents (heap w self)) ?S1 \<noteq> None"
      by (intro for_dependents_total [OF bok, where ?w0.0 = w and ?S0.0 = "?S1"]) auto
    then obtain x w1 S1 where loop: "?loop = Some (x, w1, S1)"
      by (cases a) auto
    have "k \<le> n" using Suc.prems by simp
    then have "act n (log (Visit opn (name (heap w1 self))) w1) self \<noteq> None"
      using tot unfolding action_total_def by blast
    then show ?thesis
      using False loop by (cases x) (auto split: option.splits)
  qed
qed

lemma cascade_action_first_total:
  assumes act: "action_ok opn act" and tot: "action_total k act"
  shows "todo w self (seen_set seen) + k < n \<Longrightarrow>
         cascade_action_first opn act dflt n w self a seen \<noteq> None"
proof (induction n arbitrary: w self seen)
  case 0
  then show ?case by simp
next
  case (Suc n)
  let ?nm = "name (heap w self)"
  let ?S1 = "add_seen_cache seen ?nm"
  let ?body = "\<lambda>w' dependent seen. cascade_action_first opn act dflt n w' dependent a (Some seen)"
  show ?case
  proof (cases "already_seen seen ?nm")
    case True
    then show ?thesis by simp
  next
    case False
    then have nm: "?nm \<notin> seen_set seen" by (rule not_already_seen)
    have bok: "body_ok opn ?body"
      unfolding body_ok_def using cascade_action_first_ok [OF act] by fastforce
    have "k \<le> n" using Suc.prems by simp
    then have "act n (log (Visit opn ?nm) w) self \<noteq> None"
      using tot unfolding action_total_def by blast
    then obtain x w1 where a1: "act n (log (Visit opn ?nm) w) self = Some (x, w1)"
      by auto
    with act have "same_graph (log (Visit opn ?nm) w) w1"
      unfolding action_ok_def by blast
    then have g1: "same_graph w w1" by (simp add: same_graph_def)
    have "?body w' j S' \<noteq> None"
      if "same_graph w w'" "?S1 \<subseteq> S'" "j \<in> snd ` set (cache_by_name w)" for w' j S'
    proof -
      have "todo w' j S' < todo w self (seen_set seen)"
        using that nm by (intro todo_less) (auto simp: add_seen_cache_def)
      then have "todo w' j (seen_set (Some S')) + k < n"
        using Suc.prems by simp
      then show ?thesis by (rule Suc.IH)
    qed
    then have "for_dependents ?body w1 (dependents (heap w1 self)) ?S1 \<noteq> None"
      using g1 by (intro for_dependents_total [OF bok, where ?w0.0 = w and ?S0.0 = "?S1"]) auto
    then show ?thesis
      using False a1 by (cases x) (auto split: option.splits sum.splits)
  qed
qed

lemma load_eq_cascade:
  "load n w self a seen = cascade Load (\<lambda>n w i. Some (load_local w i)) None n w self a seen"
proof (induction n arbitrary: w self seen a)
  case 0
  show ?case by simp
next
  case (Suc n)
  show ?case by (simp add: Suc.IH split: option.splits prod.splits sum.splits)
qed

lemma save_eq_cascade:
  "save n w self a seen = cascade Save (\<lambda>n w i. Some (save_local w i)) PyNone n w self a seen"
proof (induction n arbitrary: w self seen a)
  case 0
  show ?case by simp
next
  case (Suc n)
  show ?case by (simp add: Suc.IH split: option.splits prod.splits sum.splits)
qed

lemma delete_saved_content_eq_cascade:
  "delete_saved_content n w self a seen =
   cascade DeleteSavedContent (\<lambda>n w i. Some (delete_saved_content_local w i)) () n w self a seen"
proof (induction n arbitrary: w self seen a)
  case 0
  show ?case by simp
next
  case (Suc n)
  show ?case by (simp add: Suc.IH split: option.splits prod.splits sum.splits)
qed

lemma load_or_build_eq_cascade:
  "load_or_build n w self a seen = cascade LoadOrBuild load_or_build_local None n w self a seen"
proof (induction n arbitrary: w self seen a)
  case 0
  show ?case by simp
next
  case (Suc n)
  show ?case by (simp add: Suc.IH)
qed

lemma invalidate_and_rebuild_eq_cascade:
  "invalidate_and_rebuild n w self a seen =
   cascade_action_first InvalidateAndRebuild invalidate_and_rebuild_local () n w self a seen"
proof (induction n arbitrary: w self seen a)
  case 0
  show ?case by simp
next
  case (Suc n)
  show ?case
    by (simp add: Suc.IH split: option.splits prod.splits sum.splits)
qed

lemma post_process_frame:
  "post_process w i c = (r, w') \<Longrightarrow>
   heap w' = heap w \<and> cache_by_name w' = cache_by_name w \<and> visits opn (trace w') = visits opn (trace w)"
  by (auto simp: post_process_def split: option.splits sum.splits)

lemma pre_process_frame:
  "pre_process w i c = (r, w') \<Longrightarrow>
   heap w' = heap w \<and> cache_by_name w' = cache_by_name w \<and> visits opn (trace w') = visits opn (trace w)"
  by (auto simp: pre_process_def split: option.splits sum.splits)

lemma same_graph_heap_eq:
  "heap w' = heap w \<Longrightarrow> cache_by_name w' = cache_by_name w \<Longrightarrow> same_graph w0 w' = same_graph w0 w"
  by (simp add: same_graph_def)

lemma load_local_frame:
  assumes "load_local w i = (r, w')"
  shows "same_graph w w' \<and> visits opn (trace w') = visits opn (trace w)"
  using assms
  by (auto simp: load_local_def Let_def same_graph_def
      split: option.splits sum.splits bool.splits prod.splits dest!: post_process_frame [where opn = opn])

lemma save_local_frame:
  assumes "save_local w i = (r, w')"
  shows "heap w' = heap w \<and> cache_by_name w' = cache_by_name w \<and> visits opn (trace w') = visits opn (trace w)"
  using assms
  by (auto simp: save_local_def
      split: option.splits sum.splits prod.splits dest!: pre_process_frame [where opn = opn])

lemma delete_saved_content_local_frame:
  assumes "delete_saved_content_local w i = (r, w')"
  shows "heap w' = heap w \<and> cache_by_name w' = cache_by_name w \<and> visits opn (trace w') = visits opn (trace w)"
  using assms
  by (auto simp: delete_saved_content_local_def split: option.splits sum.splits)

lemma same_graph_log_left [simp]: "same_graph (log e w) w' = same_graph w w'"
  by (simp add: same_graph_def)

lemma same_graph_set_contents_left [simp]: "same_graph (set_contents i c w) w' = same_graph w w'"
  by (simp add: same_graph_def)

lemma load_nocascade:
  "load (Suc n) w i False None =
     (case load_local (log (Visit Load (name (heap w i))) w) i of
        (r, w2) \<Rightarrow> Some (r, w2, {name (heap w i)}))"
  by (simp add: already_seen_def add_seen_cache_def)

lemma save_nocascade:
  "save (Suc n) w i False None =
     (case save_local (log (Visit Save (name (heap w i))) w) i of
        (r, w2) \<Rightarrow> Some (r, w2, {name (heap w i)}))"
  by (simp add: already_seen_def add_seen_cache_def)

lemma delete_saved_content_nocascade:
  "delete_saved_content (Suc n) w i False None =
     (case delete_saved_content_local (log (Visit DeleteSavedContent (name (heap w i))) w) i of
        (r, w2) \<Rightarrow> Some (r, w2, {name (heap w i)}))"
  by (simp add: already_seen_def add_seen_cache_def)

lemma load_nocascade_frame:
  assumes "load n w i False None = Some (r, w', S')" and "opn \<noteq> Load"
  shows "same_graph w w' \<and> visits opn (trace w') = visits opn (trace w)"
proof (cases n)
  case 0
  then show ?thesis using assms by simp
next
  case (Suc m)
  then obtain w2 where "load_local (log (Visit Load (name (heap w i))) w) i = (r, w')"
    using assms(1) unfolding Suc load_nocascade by (auto split: prod.splits)
  from load_local_frame [OF this, of opn] show ?thesis
    using assms(2) by simp
qed

lemma save_nocascade_frame:
  assumes "save n w i False None = Some (r, w', S')" and "opn \<noteq> Save"
  shows "same_graph w w' \<and> visits opn (trace w') = visits opn (trace w)"
proof (cases n)
  case 0
  then show ?thesis using assms by simp
next
  case (Suc m)
  then obtain w2 where "save_local (log (Visit Save (name (heap w i))) w) i = (r, w')"
    using assms(1) unfolding Suc save_nocascade by (auto split: prod.splits)
  from save_local_frame [OF this, of opn] show ?thesis
    using assms(2) by (simp add: same_graph_def)
qed

lemma delete_saved_content_nocascade_frame:
  assumes "delete_saved_content n w i False None = Some (r, w', S')" and "opn \<noteq> DeleteSavedContent"
  shows "same_graph w w' \<and> visits opn (trace w') = visits opn (trace w)"
proof (cases n)
  case 0
  then show ?thesis using assms by simp
next
  case (Suc m)
  then obtain w2 where
    "delete_saved_content_local (log (Visit DeleteSavedContent (name (heap w i))) w) i = (r, w')"
    using assms(1) unfolding Suc delete_saved_content_nocascade by (auto split: prod.splits)
  from delete_saved_content_local_frame [OF this, of opn] show ?thesis
    using assms(2) by (simp add: same_graph_def)
qed

lemma build_frame:
  assumes "build n w i = Some (r, w')" and "opn \<noteq> Save"
  shows "same_graph w w' \<and> visits opn (trace w') = visits opn (trace w)"
proof -
  obtain x w1 where b: "(case builder (heap w i) of
              None \<Rightarrow> (Inr dict_loader, w)
            | Some b \<Rightarrow> (b (name (heap w i)), log (BuilderCall (name (heap w i))) w)) = (x, w1)"
    by (cases "builder (heap w i)") auto
  then have f1: "same_graph w w1 \<and> visits opn (trace w1) = visits opn (trace w)"
    by (auto split: option.splits)
  show ?thesis
  proof (cases x)
    case (Inl e)
    then show ?thesis using assms(1) b f1 by (simp add: build_def)
  next
    case (Inr built)
    obtain y w2 where p: "post_process w1 i built = (y, w2)" by (cases "post_process w1 i built")
    from post_process_frame [OF p, of opn]
    have f2: "same_graph w w2 \<and> visits opn (trace w2) = visits opn (trace w)"
      using f1 by (simp add: same_graph_def)
    show ?thesis
    proof (cases y)
      case (Inl e)
      then show ?thesis using assms(1) b Inr p f2 by (simp add: build_def)
    next
      case c: (Inr c)
      then obtain z w3 S3 where s: "save n (set_contents i c w2) i False None = Some (z, w3, S3)"
        and w': "w' = w3"
        using assms(1) b Inr p by (auto simp: build_def split: option.splits sum.splits)
      from save_nocascade_frame [OF s assms(2)] f2 w' show ?thesis
        by (auto simp: same_graph_def)
    qed
  qed
qed

lemma build_total: "build (Suc n) w i \<noteq> None"
  by (auto simp: build_def save_nocascade split: option.splits sum.splits prod.splits)

lemma load_or_build_local_ok: "action_ok LoadOrBuild load_or_build_local"
  unfolding action_ok_def
proof (intro allI impI)
  fix n w i r w'
  assume a: "load_or_build_local n w i = Some (r, w')"
  then obtain x w1 S1 where l: "load n w i False None = Some (x, w1, S1)"
    by (auto simp: load_or_build_local_def split: option.splits)
  have f1: "same_graph w w1 \<and> visits LoadOrBuild (trace w1) = visits LoadOrBuild (trace w)"
    using load_nocascade_frame [OF l, of LoadOrBuild] by simp
  show "same_graph w w' \<and> visits LoadOrBuild (trace w') = visits LoadOrBuild (trace w)"
  proof (cases "\<exists>y w2. x = Inr None \<and> build n w1 i = Some (y, w2) \<and> w' = w2")
    case True
    then obtain y where "build n w1 i = Some (y, w')" by blast
    from build_frame [OF this, of LoadOrBuild] f1 show ?thesis
      by (auto simp: same_graph_def)
  next
    case False
    then have "w' = w1"
      using a l by (auto simp: load_or_build_local_def split: option.splits sum.splits)
    then show ?thesis using f1 by simp
  qed
qed

lemma load_or_build_local_total: "action_total (Suc 0) load_or_build_local"
  unfolding action_total_def
proof (intro allI impI)
  fix n :: nat and w :: "('a, 'b) world" and i
  assume "Suc 0 \<le> n"
  then obtain m where n: "n = Suc m" by (cases n) auto
  show "load_or_build_local n w i \<noteq> None"
    unfolding n load_or_build_local_def load_nocascade
    by (auto simp: build_total split: option.splits sum.splits prod.splits)
qed

lemma invalidate_and_rebuild_local_ok: "action_ok InvalidateAndRebuild invalidate_and_rebuild_local"
  unfolding action_ok_def
proof (intro allI impI)
  fix n w i r w'
  assume a: "invalidate_and_rebuild_local n w i = Some (r, w')"
  then obtain x w1 S1 where l: "load n w i False None = Some (x, w1, S1)"
    by (auto simp: invalidate_and_rebuild_local_def invalidate_def split: option.splits)
  have f1: "same_graph w w1 \<and>
            visits InvalidateAndRebuild (trace w1) = visits InvalidateAndRebuild (trace w)"
    using load_nocascade_frame [OF l, of InvalidateAndRebuild] by simp
  show "same_graph w w' \<and>
        visits InvalidateAndRebuild (trace w') = visits InvalidateAndRebuild (trace w)"
  proof (cases x)
    case (Inl e)
    then have "w' = w1"
      using a l by (simp add: invalidate_and_rebuild_local_def invalidate_def)
    then show ?thesis using f1 by simp
  next
    case (Inr c)
    then obtain y w2 S2 where d: "delete_saved_content n w1 i False None = Some (y, w2, S2)"
      using a l by (auto simp: invalidate_and_rebuild_local_def invalidate_def split: option.splits)
    have f2: "same_graph w w2 \<and>
              visits InvalidateAndRebuild (trace w2) = visits InvalidateAndRebuild (trace w)"
      using delete_saved_content_nocascade_frame [OF d, of InvalidateAndRebuild] f1
      by (auto simp: same_graph_def)
    show ?thesis
    proof (cases y)
      case (Inl e)
      then have "w' = w2"
        using a l d Inr by (simp add: invalidate_and_rebuild_local_def invalidate_def)
      then show ?thesis using f2 by simp
    next
      case u: (Inr u)
      then obtain z where "build n w2 i = Some (z, w')"
        using a l d Inr
        by (auto simp: invalidate_and_rebuild_local_def invalidate_def split: option.splits sum.splits)
      from build_frame [OF this, of InvalidateAndRebuild] f2 show ?thesis
        by (auto simp: same_graph_def)
    qed
  qed
qed

lemma invalidate_and_rebuild_local_total: "action_total (Suc 0) invalidate_and_rebuild_local"
  unfolding action_total_def
proof (intro allI impI)
  fix n :: nat and w :: "('a, 'b) world" and i
  assume "Suc 0 \<le> n"
  then obtain m where n: "n = Suc m" by (cases n) auto
  show "invalidate_and_rebuild_local n w i \<noteq> None"
    unfolding n invalidate_and_rebuild_local_def invalidate_def load_nocascade
      delete_saved_content_nocascade
    by (auto simp: build_total split: option.splits sum.splits prod.splits)
qed

lemma load_local_ok: "action_ok opn (\<lambda>n w i. Some (load_local w i))"
  unfolding action_ok_def using load_local_frame by fastforce

lemma save_local_ok: "action_ok opn (\<lambda>n w i. Some (save_local w i))"
  unfolding action_ok_def using save_local_frame by (fastforce simp: same_graph_def)

lemma delete_saved_content_local_ok: "action_ok opn (\<lambda>n w i. Some (delete_saved_content_local w i))"
  unfolding action_ok_def using delete_saved_content_local_frame by (fastforce simp: same_graph_def)

lemma todo_le: "todo w self S \<le> Suc (length (cache_by_name w))"
proof -
  have "card (insert (name (heap w self)) (registered_names w) - S)
          \<le> card (insert (name (heap w self)) (registered_names w))"
    by (intro card_mono) auto
  also have "\<dots> \<le> Suc (card (registered_names w))"
    by (simp add: card_insert_if)
  also have "card (registered_names w) \<le> length (cache_by_name w)"
    unfolding registered_names_def
    by (metis card_image_le card_length le_trans List.finite_set finite_imageI)
  finally show ?thesis by (simp add: todo_def)
qed

lemma starts_with_append: "starts_with (p @ ys) p"
  by (induction p) simp_all

lemma mentions_append: "mentions (xs @ p @ ys) p"
proof (induction xs)
  case Nil
  show ?case
    by (cases "p @ ys") (use starts_with_append [of p ys] in auto)
next
  case (Cons a xs)
  then show ?case by simp
qed

lemma for_dependents_heap:
  assumes "\<And>w j S r w' S'. body w j S = Some (r, w', S') \<Longrightarrow> heap w' = heap w"
  shows "for_dependents body w ds S = Some (r, w', S') \<Longrightarrow> heap w' = heap w"
proof (induction ds arbitrary: w S)
  case Nil
  then show ?case by simp
next
  case (Cons d ds)
  show ?case
  proof (cases "dependent_seen d S \<or> retrieve_cache w d = None")
    case True
    then have "for_dependents body w ds S = Some (r, w', S')"
      using Cons.prems by (auto split: if_splits)
    then show ?thesis by (rule Cons.IH)
  next
    case False
    then obtain j where j: "retrieve_cache w d = Some j" and ns: "\<not> dependent_seen d S"
      by auto
    from Cons.prems j ns obtain x w1 S1 where b: "body w j S = Some (x, w1, S1)"
      by (auto split: option.splits)
    have h1: "heap w1 = heap w" using assms b by blast
    show ?thesis
    proof (cases x)
      case (Inl e)
      then have "w' = w1" using Cons.prems j ns b by auto
      then show ?thesis using h1 by simp
    next
      case (Inr y)
      then have "for_dependents body w1 ds S1 = Some (r, w', S')"
        using Cons.prems j ns b by auto
      then have "heap w' = heap w1" by (rule Cons.IH)
      then show ?thesis using h1 by simp
    qed
  qed
qed

lemma delete_saved_content_heap:
  "delete_saved_content n w self a seen = Some (r, w', S') \<Longrightarrow> heap w' = heap w"
proof (induction n arbitrary: w self seen r w' S')
  case 0
  then show ?case by simp
next
  case (Suc n)
  let ?nm = "name (heap w self)"
  let ?body = "\<lambda>w' dependent seen. delete_saved_content n w' dependent a (Some seen)"
  let ?loop = "if a then for_dependents ?body w (dependents (heap w self)) (add_seen_cache seen ?nm)
               else Some (Inr (), w, add_seen_cache seen ?nm)"
  show ?case
  proof (cases "already_seen seen ?nm")
    case True
    then show ?thesis using Suc.prems by simp
  next
    case False
    from Suc.prems False obtain x w1 S1 where loop: "?loop = Some (x, w1, S1)"
      by (auto split: option.splits)
    have h1: "heap w1 = heap w"
    proof (cases a)
      case True
      then have "for_dependents ?body w (dependents (heap w self)) (add_seen_cache seen ?nm)
                 = Some (x, w1, S1)"
        using loop by simp
      then show ?thesis
        by (rule for_dependents_heap [rotated]) (rule Suc.IH)
    next
      case False
      then show ?thesis using loop by simp
    qed
    show ?thesis
    proof (cases x)
      case (Inl e)
      then have "w' = w1" using Suc.prems False loop by auto
      then show ?thesis using h1 by simp
    next
      case (Inr u)
      then obtain y where
        "delete_saved_content_local (log (Visit DeleteSavedContent (name (heap w1 self))) w1) self
         = (y, w')"
        using Suc.prems False loop by (auto split: prod.splits)
      from delete_saved_content_local_frame [OF this, of Load] show ?thesis
        using h1 by simp
    qed
  qed
qed

lemma cascade_returns_visiting_once:
  assumes act: "action_ok opn act" and tot: "action_total k act"
    and n: "length (cache_by_name w) + 2 < n" and k: "k \<le> Suc 0"
  shows "returns_visiting_once opn w (cascade opn act dflt n w self a seen)"
proof -
  have "todo w self (seen_set seen) + k < n"
    using todo_le [of w self "seen_set seen"] n k by simp
  then have "cascade opn act dflt n w self a seen \<noteq> None"
    by (rule cascade_total [OF act tot])
  then obtain r w' S' where res: "cascade opn act dflt n w self a seen = Some (r, w', S')"
    by auto
  from cascade_ok [OF act res] obtain vs where
    "visits opn (trace w') = visits opn (trace w) @ vs" "distinct vs"
    unfolding step_ok_def by blast
  then show ?thesis
    unfolding returns_visiting_once_def using res by blast
qed

lemma cascade_action_first_returns_visiting_once:
  assumes act: "action_ok opn act" and tot: "action_total k act"
    and n: "length (cache_by_name w) + 2 < n" and k: "k \<le> Suc 0"
  shows "returns_visiting_once opn w (cascade_action_first opn act dflt n w self a seen)"
proof -
  have "todo w self (seen_set seen) + k < n"
    using todo_le [of w self "seen_set seen"] n k by simp
  then have "cascade_action_first opn act dflt n w self a seen \<noteq> None"
    by (rule cascade_action_first_total [OF act tot])
  then obtain r w' S' where
    res: "cascade_action_first opn act dflt n w self a seen = Some (r, w', S')"
    by auto
  from cascade_action_first_ok [OF act res] obtain vs where
    "visits opn (trace w') = visits opn (trace w) @ vs" "distinct vs"
    unfolding step_ok_def by blast
  then show ?thesis
    unfolding returns_visiting_once_def using res by blast
qed

lemma local_total: "action_total 0 (\<lambda>n w i. Some (f w i))"
  by (simp add: action_total_def)

section \<open>Results\<close>

text \<open>
  C1. Every cascading operation (load, save, invalidate, delete_saved_content,
  invalidate_and_rebuild, load_or_build), started at any wrapper of any world, cyclic or
  not, with any seen-set, returns once the fuel exceeds the size of the registry by two,
  and the names it visits for the operation are pairwise different: no cache name has its
  node-local action performed twice in one call.
\<close>

theorem cascading_operations_terminate_visiting_once:
  assumes "length (cache_by_name w) + 2 < n"
  shows "returns_visiting_once Load w (load n w self a seen)
       \<and> returns_visiting_once Save w (save n w self a seen)
       \<and> returns_visiting_once Load w (invalidate n w self a seen)
       \<and> returns_visiting_once DeleteSavedContent w (delete_saved_content n w self a seen)
       \<and> returns_visiting_once InvalidateAndRebuild w (invalidate_and_rebuild n w self a seen)
       \<and> returns_visiting_once LoadOrBuild w (load_or_build n w self a seen)"
proof -
  have l: "returns_visiting_once Load w (load n w self a seen)"
    unfolding load_eq_cascade
    by (rule cascade_returns_visiting_once [OF load_local_ok local_total assms]) simp
  have s: "returns_visiting_once Save w (save n w self a seen)"
    unfolding save_eq_cascade
    by (rule cascade_returns_visiting_once [OF save_local_ok local_total assms]) simp
  have d: "returns_visiting_once DeleteSavedContent w (delete_saved_content n w self a seen)"
    unfolding delete_saved_content_eq_cascade
    by (rule cascade_returns_visiting_once [OF delete_saved_content_local_ok local_total assms]) simp
  have r: "returns_visiting_once InvalidateAndRebuild w (invalidate_and_rebuild n w self a seen)"
    unfolding invalidate_and_rebuild_eq_cascade
    by (rule cascade_action_first_returns_visiting_once
        [OF invalidate_and_rebuild_local_ok invalidate_and_rebuild_local_total assms]) simp
  have b: "returns_visiting_once LoadOrBuild w (load_or_build n w self a seen)"
    unfolding load_or_build_eq_cascade
    by (rule cascade_returns_visiting_once
        [OF load_or_build_local_ok load_or_build_local_total assms]) simp
  show ?thesis using l s d r b by (simp add: invalidate_def)
qed

theorem cascading_operations_terminate_visiting_once_witness:
  "length (cache_by_name cycle_world) + 2 < 5
   \<and> returns_visiting_once LoadOrBuild cycle_world (load_or_build 5 cycle_world 0 True None)
   \<and> visited LoadOrBuild (load_or_build 5 cycle_world 0 True None) = Some [''B'', ''A'']
   \<and> length (cache_by_name diamond_world) + 2 < 7
   \<and> returns_visiting_once Load diamond_world (invalidate 7 diamond_world 0 True None)
   \<and> visited Load (invalidate 7 diamond_world 0 True None) = Some [''D'', ''B'', ''C'', ''A'']"
proof -
  have c: "length (cache_by_name cycle_world) + 2 < 5"
    by (simp add: cycle_world_def)
  have d: "length (cache_by_name diamond_world) + 2 < 7"
    by (simp add: diamond_world_def)
  have vc: "visited LoadOrBuild (load_or_build 5 cycle_world 0 True None) = Some [''B'', ''A'']"
    by code_simp
  have vd: "visited Load (invalidate 7 diamond_world 0 True None) = Some [''D'', ''B'', ''C'', ''A'']"
    by code_simp
  show ?thesis
    using cascading_operations_terminate_visiting_once [OF c, of 0 True None]
      cascading_operations_terminate_visiting_once [OF d, of 0 True None] c d vc vd
    by blast
qed

text \<open>
  C2, as amended. load, save, invalidate, delete_saved_content and load_or_build are the
  algorithm of the spec: after the guard and the addition of the own name they recurse
  into the dependents and then perform the node-local action. invalidate_and_rebuild
  performs its node-local action first and recurses into the dependents afterwards.
\<close>

theorem cascade_shapes:
  "load n w self a seen = cascade Load (\<lambda>n w i. Some (load_local w i)) None n w self a seen
   \<and> save n w self a seen = cascade Save (\<lambda>n w i. Some (save_local w i)) PyNone n w self a seen
   \<and> invalidate n w self a seen = cascade Load (\<lambda>n w i. Some (load_local w i)) None n w self a seen
   \<and> delete_saved_content n w self a seen
       = cascade DeleteSavedContent (\<lambda>n w i. Some (delete_saved_content_local w i)) () n w self a seen
   \<and> load_or_build n w self a seen = cascade LoadOrBuild load_or_build_local None n w self a seen
   \<and> invalidate_and_rebuild n w self a seen
       = cascade_action_first InvalidateAndRebuild invalidate_and_rebuild_local () n w self a seen"
  using load_eq_cascade [of n w self a seen] save_eq_cascade [of n w self a seen]
    delete_saved_content_eq_cascade [of n w self a seen]
    load_or_build_eq_cascade [of n w self a seen]
    invalidate_and_rebuild_eq_cascade [of n w self a seen]
  by (simp add: invalidate_def)

theorem cascade_shapes_counterexample:
  "visited InvalidateAndRebuild (invalidate_and_rebuild 4 chain_world 0 True None)
     = Some [''A'', ''B'']
   \<and> visited InvalidateAndRebuild
       (cascade InvalidateAndRebuild invalidate_and_rebuild_local () 4 chain_world 0 True None)
     = Some [''B'', ''A'']"
  by code_simp

text \<open>
  C3, as amended. When \<open>_build\<close> returns, a save of this wrapper has been performed; and
  for a wrapper without post-processor the contents are a fresh empty mapping when no
  builder is configured, and otherwise exactly what the builder returned, hence present
  only if the builder returned a present value.
\<close>

theorem build_result:
  assumes "build n w self = Some (Inr r, w')"
  shows "visits Save (trace w') = visits Save (trace w) @ [name (heap w self)]
       \<and> (if post_processor (heap w self) = None
          then (case builder (heap w self) of
                  None \<Rightarrow> contents (heap w' self) = Some []
                | Some b \<Rightarrow> b (name (heap w self)) = Inr (contents (heap w' self)))
          else True)"
proof (cases n)
  case 0
  then show ?thesis
    using assms by (auto simp: build_def post_process_def split: option.splits sum.splits)
next
  case (Suc m)
  show ?thesis
    using assms unfolding Suc
    by (auto simp: build_def post_process_def dict_loader_def already_seen_def add_seen_cache_def
        save_local_def pre_process_def
        split: option.splits sum.splits prod.splits)
qed

theorem build_result_witness:
  "(case build (Suc 0) (single_world dict_builder_wrapper) 0 of
      Some (Inr r, w') \<Rightarrow>
        visits Save (trace w') = [''users''] \<and> contents (heap w' 0) = Some [(''k'', ''v'')]
    | _ \<Rightarrow> False)"
proof -
  obtain r w' where b: "build (Suc 0) (single_world dict_builder_wrapper) 0 = Some (Inr r, w')"
    by (simp add: build_def post_process_def already_seen_def add_seen_cache_def
        save_local_def pre_process_def single_world_def dict_builder_wrapper_def plain_wrapper_def)
  from build_result [OF b]
  have "visits Save (trace w') = [''users''] \<and> contents (heap w' 0) = Some [(''k'', ''v'')]"
    by (simp add: single_world_def dict_builder_wrapper_def plain_wrapper_def)
  then show ?thesis unfolding b by simp
qed

theorem build_none_counterexample:
  "built_contents 0 (build (Suc 0) (single_world none_builder_wrapper) 0) = Some None
   \<and> (case build (Suc 0) (single_world none_builder_wrapper) 0 of
         Some (Inr r, w) \<Rightarrow> True | _ \<Rightarrow> False)"
  by (simp add: built_contents_def build_def post_process_def already_seen_def add_seen_cache_def
      save_local_def pre_process_def single_world_def none_builder_wrapper_def plain_wrapper_def
      log_def set_contents_def)

text \<open>
  C4. The code at an input where the claim fails: the loader returns the mapping with one
  entry, the post-processor returns the empty mapping, and after \<open>load()\<close> the contents
  are the loader's result, not the post-processor's: \<open>_post_process\<close> calls the
  post-processor and drops what it returns.
\<close>

theorem load_drops_post_processor_result:
  "the (post_processor (heap (single_world replacing_post_processor_wrapper) 0)) (Some [(''k'', ''v'')])
     = Inr (Some [])
   \<and> returned (load (Suc 0) (single_world replacing_post_processor_wrapper) 0 False None)
       = Some (Inr (Some [(''k'', ''v'')]))
   \<and> contents_after 0 (load (Suc 0) (single_world replacing_post_processor_wrapper) 0 False None)
       = Some (Some [(''k'', ''v'')])"
  by (simp add: returned_def contents_after_def already_seen_def add_seen_cache_def load_local_def post_process_def
      single_world_def replacing_post_processor_wrapper_def plain_wrapper_def log_def
      set_contents_def Let_def)

text \<open>
  C5, as amended. \<open>save()\<close> passes the contents through the pre-processor (identity if
  none). Without a saver it returns the processed contents; with a saver it calls it with
  the name and the processed contents, and returns the saver's result if that result is
  true in Python's sense, and the processed contents otherwise. An exception of the saver
  is raised to the caller.
\<close>

theorem save_result:
  assumes "case pre_processor (heap w self) of
             None \<Rightarrow> c = contents (heap w self)
           | Some p \<Rightarrow> p (contents (heap w self)) = Inr c"
  shows "returned (save (Suc n) w self False None) =
           Some (case saver (heap w self) of
                   None \<Rightarrow> Inr (contents_value c)
                 | Some f \<Rightarrow>
                     (case f (name (heap w self)) c of
                        Inl e \<Rightarrow> Inl e
                      | Inr r \<Rightarrow> Inr (if truthy r then r else contents_value c)))"
  using assms
  by (auto simp: returned_def already_seen_def add_seen_cache_def save_local_def pre_process_def
      split: option.splits sum.splits prod.splits)

theorem save_result_witness:
  "(case pre_processor (heap (single_world quiet_saver_wrapper) 0) of
      None \<Rightarrow> Some [(''k'', ''v'')] = contents (heap (single_world quiet_saver_wrapper) 0)
    | Some p \<Rightarrow> p (contents (heap (single_world quiet_saver_wrapper) 0)) = Inr (Some [(''k'', ''v'')]))
   \<and> returned (save (Suc 0) (single_world quiet_saver_wrapper) 0 False None)
       = Some (Inr (PyDict [(''k'', ''v'')]))"
  using save_result [where w = "single_world quiet_saver_wrapper" and self = 0
      and c = "Some [(''k'', ''v'')]" and n = 0]
  by (simp add: single_world_def quiet_saver_wrapper_def plain_wrapper_def)

theorem save_result_counterexample:
  "the (saver (heap (single_world quiet_saver_wrapper) 0)) ''users'' (Some [(''k'', ''v'')]) = Inr PyNone
   \<and> returned (save (Suc 0) (single_world quiet_saver_wrapper) 0 False None)
       = Some (Inr (PyDict [(''k'', ''v'')]))"
  by (simp add: returned_def already_seen_def add_seen_cache_def save_local_def pre_process_def single_world_def
      quiet_saver_wrapper_def plain_wrapper_def log_def)

text \<open>
  C6. With absent contents, item read, item write, item delete, iteration and length
  each raise the AttributeError of \<open>_check_contents_present\<close>, whose message
  carries the cache name between quotes; the membership test returns \<open>False\<close> for
  every key instead of raising.
\<close>

theorem absent_contents_operations:
  assumes "contents self = None"
  shows "getitem self k = Inl (AttributeError (''No cache contents defined for '' @ quoted (name self)))
       \<and> setitem self k v = Inl (AttributeError (''No cache contents defined for '' @ quoted (name self)))
       \<and> delitem self k = Inl (AttributeError (''No cache contents defined for '' @ quoted (name self)))
       \<and> iter self = Inl (AttributeError (''No cache contents defined for '' @ quoted (name self)))
       \<and> len self = Inl (AttributeError (''No cache contents defined for '' @ quoted (name self)))
       \<and> contains self k = False"
  using assms
  by (simp add: getitem_def setitem_def delitem_def iter_def len_def contains_def
      check_contents_present_def)

theorem absent_contents_operations_witness:
  "contents (plain_wrapper ''users'' []) = None
   \<and> getitem (plain_wrapper ''users'' []) ''k''
       = Inl (AttributeError (''No cache contents defined for '' @ [CHR 0x27] @ ''users'' @ [CHR 0x27]))
   \<and> len (plain_wrapper ''users'' [])
       = Inl (AttributeError (''No cache contents defined for '' @ [CHR 0x27] @ ''users'' @ [CHR 0x27]))
   \<and> contains (plain_wrapper ''users'' []) ''k'' = False"
  using absent_contents_operations [of "plain_wrapper ''users'' []" "''k''" "''v''"]
  by (simp add: plain_wrapper_def quoted_def)

text \<open>
  C7, as amended. When neither getter of the contents knows the attribute (each is absent
  or raises AttributeError), \<open>__getattr__\<close> raises an AttributeError whose message holds
  the class name of the wrapper, the class name of the contents and the attribute name.
  The message does not hold the cache name.
\<close>

theorem unknown_attribute_message:
  assumes "case ga of None \<Rightarrow> True | Some f \<Rightarrow> (case f attr of Inl (AttributeError m) \<Rightarrow> True | _ \<Rightarrow> False)"
    and "case gh of None \<Rightarrow> True | Some f \<Rightarrow> (case f attr of Inl (AttributeError m) \<Rightarrow> True | _ \<Rightarrow> False)"
  shows "\<exists>msg. getattr self ga gh attr = Inl (AttributeError msg)
           \<and> msg = quoted (class_name self) @ '' and ''
                   @ quoted (contents_class_name (contents self))
                   @ '' objects have no attribute '' @ quoted attr
           \<and> mentions msg (class_name self)
           \<and> mentions msg (contents_class_name (contents self))
           \<and> mentions msg attr"
proof -
  let ?msg = "quoted (class_name self) @ '' and '' @ quoted (contents_class_name (contents self))
              @ '' objects have no attribute '' @ quoted attr"
  have "try_getters [ga, gh] attr = None"
    using assms by (auto split: option.splits sum.splits exn.splits)
  then have g: "getattr self ga gh attr = Inl (AttributeError ?msg)"
    by (simp add: getattr_def)
  have m1: "mentions ?msg (class_name self)"
    using mentions_append [of "[CHR 0x27]" "class_name self"] by (simp add: quoted_def)
  have m2: "mentions ?msg (contents_class_name (contents self))"
    using mentions_append [of "quoted (class_name self) @ '' and '' @ [CHR 0x27]"
        "contents_class_name (contents self)"]
    by (simp add: quoted_def)
  have m3: "mentions ?msg attr"
    using mentions_append [of "quoted (class_name self) @ '' and ''
        @ quoted (contents_class_name (contents self)) @ '' objects have no attribute '' @ [CHR 0x27]"
        attr "[CHR 0x27]"]
    by (simp add: quoted_def)
  show ?thesis using g m1 m2 m3 by blast
qed

theorem unknown_attribute_message_witness:
  "\<exists>msg. getattr (plain_wrapper ''users'' []) (Some (\<lambda>a. Inl (AttributeError ''no'') :: exn + unit))
            None ''colour'' = Inl (AttributeError msg)
         \<and> mentions msg ''CacheWrap'' \<and> mentions msg ''NoneType'' \<and> mentions msg ''colour''"
  using unknown_attribute_message [where self = "plain_wrapper ''users'' []"
      and ga = "Some (\<lambda>a. Inl (AttributeError ''no'') :: exn + unit)" and gh = None
      and attr = "''colour''"]
  by (simp add: plain_wrapper_def)

theorem unknown_attribute_message_counterexample:
  "(case getattr (plain_wrapper ''users'' []) (Some (\<lambda>a. Inl (AttributeError ''no'') :: exn + unit))
           None ''colour'' of
      Inl (AttributeError msg) \<Rightarrow> \<not> mentions msg ''users''
    | _ \<Rightarrow> False)"
  by (simp add: getattr_def plain_wrapper_def quoted_def)

text \<open>
  C8. \<open>delete_saved_content\<close>, cascading or not, returning or raising, leaves every
  wrapper of the store as it was, so the contents of the wrapper are unchanged; and the
  node-local effect of a call is the invocation of the deleter with the cache name, when
  a deleter is configured, and nothing otherwise.
\<close>

theorem delete_saved_content_keeps_contents:
  assumes "delete_saved_content n w self a seen = Some (r, w', S')"
  shows "heap w' = heap w
       \<and> contents (heap w' self) = contents (heap w self)
       \<and> world_after (delete_saved_content (Suc m) w self False None)
           = Some (w\<lparr>trace := trace w @ Visit DeleteSavedContent (name (heap w self))
                       # (case deleter (heap w self) of
                            None \<Rightarrow> []
                          | Some f \<Rightarrow> [DeleterCall (name (heap w self))])\<rparr>)"
proof -
  have h: "heap w' = heap w"
    using assms by (rule delete_saved_content_heap)
  have "world_after (delete_saved_content (Suc m) w self False None)
           = Some (w\<lparr>trace := trace w @ Visit DeleteSavedContent (name (heap w self))
                       # (case deleter (heap w self) of
                            None \<Rightarrow> []
                          | Some f \<Rightarrow> [DeleterCall (name (heap w self))])\<rparr>)"
    by (simp add: world_after_def already_seen_def add_seen_cache_def
        delete_saved_content_local_def log_def split: option.splits sum.splits)
  then show ?thesis using h by simp
qed

theorem delete_saved_content_keeps_contents_witness:
  "contents_after 0 (delete_saved_content (Suc 0) (single_world deleter_wrapper) 0 True None)
     = Some (Some [(''k'', ''v'')])
   \<and> world_after (delete_saved_content (Suc 0) (single_world deleter_wrapper) 0 False None)
       = Some ((single_world deleter_wrapper)
                 \<lparr>trace := [Visit DeleteSavedContent ''users'', DeleterCall ''users'']\<rparr>)"
proof -
  obtain r w' S' where
    d: "delete_saved_content (Suc 0) (single_world deleter_wrapper) 0 True None = Some (r, w', S')"
    by (simp add: already_seen_def add_seen_cache_def delete_saved_content_local_def
        single_world_def deleter_wrapper_def plain_wrapper_def split: prod.splits)
  from delete_saved_content_keeps_contents [OF d, of 0]
  have "contents (heap w' 0) = Some [(''k'', ''v'')]
      \<and> world_after (delete_saved_content (Suc 0) (single_world deleter_wrapper) 0 False None)
       = Some ((single_world deleter_wrapper)
                 \<lparr>trace := [Visit DeleteSavedContent ''users'', DeleterCall ''users'']\<rparr>)"
    by (simp add: single_world_def deleter_wrapper_def plain_wrapper_def)
  then show ?thesis unfolding d contents_after_def by simp
qed

text \<open>
  C9. The code at inputs where the claim fails: \<open>add_dependent\<close> given a wrapper-shaped
  value stores the value itself when it is hashable and raises TypeError when it is not;
  in neither case is the name derived, which the constructor does for the same value.
\<close>

theorem add_dependent_keeps_wrapper_object:
  "(case add_dependent (plain_wrapper ''A'' []) (WrapperShaped True ''B'') of
      Inl e \<Rightarrow> False
    | Inr self \<Rightarrow> dependents self = [WrapperShaped True ''B''])
   \<and> add_dependent (plain_wrapper ''A'' []) (WrapperShaped False ''B'')
       = Inl (TypeError ''unhashable type'')
   \<and> init_dependents (Some [WrapperShaped True ''B'']) = [PlainName ''B'']"
  by (simp add: add_dependent_def init_dependents_def plain_wrapper_def)

text \<open>
  C10. With a loader configured, \<open>load()\<close> sets the contents absent before it calls the
  loader: when the loader raises, the exception reaches the caller and the wrapper is
  left with absent contents, whatever it held before.
\<close>

theorem load_loader_failure:
  assumes "loader (heap w self) = Some f" and "f (name (heap w self)) = Inl e"
  shows "returned (load (Suc n) w self False None) = Some (Inl e)
       \<and> contents_after self (load (Suc n) w self False None) = Some None"
  using assms
  by (simp add: returned_def contents_after_def already_seen_def add_seen_cache_def load_local_def Let_def)

theorem load_loader_failure_witness:
  "loader (heap (single_world failing_loader_wrapper) 0) = Some (\<lambda>n. Inl (IOError ''disk''))
   \<and> contents (heap (single_world failing_loader_wrapper) 0) = Some [(''k'', ''v'')]
   \<and> returned (load (Suc 0) (single_world failing_loader_wrapper) 0 False None)
       = Some (Inl (IOError ''disk''))
   \<and> contents_after 0 (load (Suc 0) (single_world failing_loader_wrapper) 0 False None) = Some None"
  using load_loader_failure [where w = "single_world failing_loader_wrapper" and self = 0
      and f = "\<lambda>n. Inl (IOError ''disk'')" and e = "IOError ''disk''" and n = 0]
  by (simp add: single_world_def failing_loader_wrapper_def plain_wrapper_def)

end
